theory Spec2Isabelle
  imports Main
begin

section \<open>Data model\<close>

text \<open>
  The program keeps every \<open>Page\<close> on the C++ free store and refers to it through
  \<open>Page*\<close>. An address is a natural number, the free store is a partial map from
  addresses to pages, and \<open>delete\<close> removes the address from that map, so that a pointer
  the table still holds to a deleted page is visibly dangling.

  A record is a \<open>char*\<close>: \<open>None\<close> is \<open>nullptr\<close>, \<open>Some s\<close> a NUL-terminated
  array whose contents before the terminator are \<open>s\<close>. The slot array \<open>char** records\<close>
  is the list of its slots; its length is the length that \<open>new char*[n]\<close> allocated.
  The C++ \<open>int\<close> fields are integers; every increment the source performs on a value
  that may be \<open>INT_MAX\<close> is guarded in the model, since signed overflow is undefined.
\<close>

type_synonym addr = nat

record Page =
  header :: "addr option"
  records :: "string option list"
  numRecords :: int

record Table =
  name :: string
  pages :: "addr list"
  numRecordsPerPage :: int

text \<open>
  \<open>Database::tables\<close> maps a name to its table; the \<open>Table\<close> objects are reachable
  through that map only and are embedded in it by value. \<open>next_free\<close> is the address
  the next \<open>new Page\<close> returns.
\<close>

record State =
  tables :: "string \<rightharpoonup> Table"
  heap :: "addr \<rightharpoonup> Page"
  next_free :: addr

text \<open>
  \<open>error\<close> are the two conditions the catalog reports on \<open>std::cerr\<close> before returning
  early (\<open>Table already exists\<close>, \<open>Table not found\<close>). \<open>fault\<close> are the ways an
  operation leaves defined behaviour or throws: \<open>new char*[n]\<close> with negative \<open>n\<close>,
  signed overflow, a write or a read outside an allocated slot array, a dereference or a
  second \<open>delete\<close> of a deleted page.
\<close>

datatype error = AlreadyExists | NotFound

datatype fault =
  BadArrayNewLength | SignedOverflow | HeapOverflow | OutOfBoundsRead | UseAfterFree | DoubleFree

definition INT_MAX :: int where
  "INT_MAX = 2147483647"

section \<open>Page and Table\<close>

text \<open>
  \<open>Page(int numRecords) : numRecords(numRecords)\<close>: the member \<open>numRecords\<close> is
  initialised with the constructor's argument, and the slot array has that many slots,
  all \<open>nullptr\<close>.
\<close>

definition Page_ctor :: "int \<Rightarrow> fault + Page" where
  "Page_ctor n =
     (if n < 0 then Inl BadArrayNewLength
      else Inr \<lparr>header = None, records = replicate (nat n) None, numRecords = n\<rparr>)"

text \<open>\<open>pages.push_back(new Page(numRecordsPerPage))\<close>\<close>

definition addPage :: "Table \<Rightarrow> State \<Rightarrow> fault + (Table \<times> State)" where
  "addPage t st =
     (case Page_ctor (numRecordsPerPage t) of
        Inl e \<Rightarrow> Inl e
      | Inr p \<Rightarrow>
          Inr (t\<lparr>pages := pages t @ [next_free st]\<rparr>,
               st\<lparr>heap := (heap st)(next_free st \<mapsto> p), next_free := Suc (next_free st)\<rparr>))"

text \<open>
  \<open>std::strcpy(dst, record.c_str())\<close> copies up to the first NUL byte of the
  \<open>std::string\<close>, so the stored C string is the payload cut at its first zero byte.
\<close>

definition strcpy :: "string \<Rightarrow> string" where
  "strcpy src = takeWhile (\<lambda>c. c \<noteq> CHR 0x00) src"

definition addRecord :: "string \<Rightarrow> Table \<Rightarrow> State \<Rightarrow> fault + (Table \<times> State)" where
  "addRecord record t st =
     (case (if pages t = [] then addPage t st
            else (case heap st (last (pages t)) of
                    None \<Rightarrow> Inl UseAfterFree
                  | Some p \<Rightarrow>
                      if numRecords p = numRecordsPerPage t then addPage t st
                      else Inr (t, st))) of
        Inl e \<Rightarrow> Inl e
      | Inr (t', st') \<Rightarrow>
          (case heap st' (last (pages t')) of
             None \<Rightarrow> Inl UseAfterFree
           | Some lastPage \<Rightarrow>
               let recordIndex = numRecords lastPage in
               if recordIndex = INT_MAX then Inl SignedOverflow
               else if recordIndex < 0 \<or> int (length (records lastPage)) \<le> recordIndex
               then Inl HeapOverflow
               else Inr (t', st'\<lparr>heap := (heap st')(last (pages t') \<mapsto>
                      lastPage\<lparr>numRecords := recordIndex + 1,
                               records := (records lastPage)[nat recordIndex := Some (strcpy record)]\<rparr>)\<rparr>)))"

section \<open>Database\<close>

text \<open>
  The catalog operations return \<open>void\<close>; what they report is the message they print.
  The model returns \<open>Some e\<close> for the \<open>std::cerr\<close> branch and \<open>None\<close> for the
  \<open>std::cout\<close> branch, next to the state the call leaves.
\<close>

definition createTable :: "string \<Rightarrow> int \<Rightarrow> State \<Rightarrow> error option \<times> State" where
  "createTable nm recordsPerPage st =
     (if tables st nm \<noteq> None then (Some AlreadyExists, st)
      else (None, st\<lparr>tables := (tables st)(nm \<mapsto>
              \<lparr>name = nm, pages = [], numRecordsPerPage = recordsPerPage\<rparr>)\<rparr>))"

definition insertInto :: "string \<Rightarrow> string \<Rightarrow> State \<Rightarrow> fault + (error option \<times> State)" where
  "insertInto tableName record st =
     (case tables st tableName of
        None \<Rightarrow> Inr (Some NotFound, st)
      | Some t \<Rightarrow>
          (case addRecord record t st of
             Inl e \<Rightarrow> Inl e
           | Inr (t', st') \<Rightarrow> Inr (None, st'\<lparr>tables := (tables st')(tableName \<mapsto> t')\<rparr>)))"

definition getTable :: "State \<Rightarrow> string \<Rightarrow> Table option" where
  "getTable st nm = tables st nm"

section \<open>Page accessor and sequential scan\<close>

text \<open>
  \<open>DiskManager::getPage\<close>: \<open>if (pageNum < table->pages.size()) return table->pages[pageNum];
  return nullptr;\<close>. The comparison converts the \<open>int\<close> to \<open>size_t\<close>, so a negative
  \<open>pageNum\<close> becomes a value above every vector size and the answer is \<open>nullptr\<close>.
  The table is the one the operator (or, in tempCodeRunnerFile.cpp, the disk manager)
  points to, as it is at the moment of the call.
\<close>

definition getPage :: "Table \<Rightarrow> int \<Rightarrow> addr option" where
  "getPage t pageNum =
     (if 0 \<le> pageNum \<and> nat pageNum < length (pages t) then Some (pages t ! nat pageNum)
      else None)"

text \<open>
  \<open>delete page\<close> runs \<open>~Page\<close>, which reads \<open>records[i]\<close> for every \<open>i < numRecords\<close>
  and releases the slot array; the page's address leaves the free store.
\<close>

definition delete_Page :: "(addr \<rightharpoonup> Page) \<Rightarrow> addr \<Rightarrow> fault + (addr \<rightharpoonup> Page)" where
  "delete_Page h a =
     (case h a of
        None \<Rightarrow> Inl DoubleFree
      | Some p \<Rightarrow>
          if int (length (records p)) < numRecords p then Inl OutOfBoundsRead
          else Inr (h(a := None)))"

text \<open>
  The operator's own fields. Its \<open>diskManager\<close> and \<open>table\<close> pointers are the table
  argument of the functions below.
\<close>

record TableScanOperator =
  currentRecordIndex :: int
  currentPageNum :: int
  currentPage :: "addr option"

definition TableScanOperator_ctor :: "Table \<Rightarrow> TableScanOperator" where
  "TableScanOperator_ctor t =
     \<lparr>currentRecordIndex = 0, currentPageNum = 0, currentPage = getPage t 0\<rparr>"

text \<open>
  \<open>return currentPage->records[currentRecordIndex++]\<close>. The increment cannot overflow:
  the index is below \<open>numRecords\<close>, an \<open>int\<close>.
\<close>

definition read_record ::
  "(addr \<rightharpoonup> Page) \<Rightarrow> Page \<Rightarrow> TableScanOperator \<Rightarrow>
     fault + (string option \<times> (addr \<rightharpoonup> Page) \<times> TableScanOperator)" where
  "read_record h p s =
     (if currentRecordIndex s < 0 \<or> int (length (records p)) \<le> currentRecordIndex s
      then Inl OutOfBoundsRead
      else Inr (records p ! nat (currentRecordIndex s), h,
                s\<lparr>currentRecordIndex := currentRecordIndex s + 1\<rparr>))"

text \<open>
  \<open>TableScanOperator::Next\<close> of user_input.cpp. One unfolding is one evaluation of the
  \<open>while\<close> condition followed by either the final \<open>return\<close> or one loop body.
\<close>

function Next ::
  "(addr \<rightharpoonup> Page) \<Rightarrow> Table \<Rightarrow> TableScanOperator \<Rightarrow>
     fault + (string option \<times> (addr \<rightharpoonup> Page) \<times> TableScanOperator)" where
  "Next h t s =
     (case currentPage s of
        None \<Rightarrow>
          if currentPageNum s = INT_MAX then Inl SignedOverflow
          else (case getPage t (currentPageNum s + 1) of
                  None \<Rightarrow> Inr (None, h, s\<lparr>currentPageNum := currentPageNum s + 1,
                                          currentPage := None\<rparr>)
                | Some a' \<Rightarrow> Next h t (s\<lparr>currentPageNum := currentPageNum s + 1,
                                         currentPage := Some a',
                                         currentRecordIndex := 0\<rparr>))
      | Some a \<Rightarrow>
          (case h a of
             None \<Rightarrow> Inl UseAfterFree
           | Some p \<Rightarrow>
               if currentRecordIndex s \<ge> numRecords p then
                 if currentPageNum s = INT_MAX then Inl SignedOverflow
                 else (case delete_Page h a of
                         Inl e \<Rightarrow> Inl e
                       | Inr h' \<Rightarrow>
                           (case getPage t (currentPageNum s + 1) of
                              None \<Rightarrow> Inr (None, h', s\<lparr>currentPageNum := currentPageNum s + 1,
                                                       currentPage := None\<rparr>)
                            | Some a' \<Rightarrow> Next h' t (s\<lparr>currentPageNum := currentPageNum s + 1,
                                                      currentPage := Some a',
                                                      currentRecordIndex := 0\<rparr>)))
               else read_record h p s))"
  by pat_completeness auto
termination
  by (relation "measure (\<lambda>(h, t, s). nat (int (length (pages t)) - currentPageNum s))")
     (auto simp: getPage_def split: if_splits)

text \<open>
  \<open>TableScanOperator::Next\<close> of tempCodeRunnerFile.cpp: it returns at once when there
  is no current page, and moves to the next page by calling itself.
\<close>

function Next_rec ::
  "(addr \<rightharpoonup> Page) \<Rightarrow> Table \<Rightarrow> TableScanOperator \<Rightarrow>
     fault + (string option \<times> (addr \<rightharpoonup> Page) \<times> TableScanOperator)" where
  "Next_rec h t s =
     (case currentPage s of
        None \<Rightarrow> Inr (None, h, s)
      | Some a \<Rightarrow>
          (case h a of
             None \<Rightarrow> Inl UseAfterFree
           | Some p \<Rightarrow>
               if currentRecordIndex s < numRecords p then read_record h p s
               else if currentPageNum s = INT_MAX then Inl SignedOverflow
               else (case delete_Page h a of
                       Inl e \<Rightarrow> Inl e
                     | Inr h' \<Rightarrow>
                         (case getPage t (currentPageNum s + 1) of
                            None \<Rightarrow> Inr (None, h', s\<lparr>currentPageNum := currentPageNum s + 1,
                                                     currentPage := None\<rparr>)
                          | Some a' \<Rightarrow> Next_rec h' t (s\<lparr>currentPageNum := currentPageNum s + 1,
                                                        currentPage := Some a',
                                                        currentRecordIndex := 0\<rparr>)))))"
  by pat_completeness auto
termination
  by (relation "measure (\<lambda>(h, t, s). nat (int (length (pages t)) - currentPageNum s))")
     (auto simp: getPage_def split: if_splits)

text \<open>\<open>~TableScanOperator\<close>: \<open>if (currentPage != nullptr) delete currentPage;\<close>\<close>

definition TableScanOperator_dtor ::
  "(addr \<rightharpoonup> Page) \<Rightarrow> TableScanOperator \<Rightarrow> fault + (addr \<rightharpoonup> Page)" where
  "TableScanOperator_dtor h s =
     (case currentPage s of None \<Rightarrow> Inr h | Some a \<Rightarrow> delete_Page h a)"

section \<open>Execution driver\<close>

text \<open>
  The driver's loop ends because every call that returns a record moves the cursor
  forward: either one slot further on the same page, which the call leaves in the free
  store, or onto a later page of the table.
\<close>

declare Next.simps [simp del] Next_rec.simps [simp del]

definition progress ::
  "(addr \<rightharpoonup> Page) \<Rightarrow> Table \<Rightarrow> TableScanOperator \<Rightarrow>
     (addr \<rightharpoonup> Page) \<Rightarrow> TableScanOperator \<Rightarrow> bool" where
  "progress h t s h' s' \<longleftrightarrow>
     (currentPageNum s' = currentPageNum s \<and> currentPage s' = currentPage s \<and>
        (\<exists>a p. currentPage s = Some a \<and> h a = Some p \<and> h' a = Some p \<and>
               currentRecordIndex s < int (length (records p)) \<and>
               currentRecordIndex s' = currentRecordIndex s + 1))
     \<or> (currentPageNum s < currentPageNum s' \<and> currentPageNum s' < int (length (pages t)))"

lemma getPage_Some:
  "getPage t n = Some a \<Longrightarrow> 0 \<le> n \<and> n < int (length (pages t)) \<and> a = pages t ! nat n"
  by (auto simp: getPage_def split: if_splits)

lemma read_record_Inr:
  assumes "read_record h p s = Inr (r, h', s')"
  shows "h' = h \<and> s' = s\<lparr>currentRecordIndex := currentRecordIndex s + 1\<rparr>
         \<and> 0 \<le> currentRecordIndex s
         \<and> currentRecordIndex s < int (length (records p))
         \<and> r = records p ! nat (currentRecordIndex s)"
  using assms by (auto simp: read_record_def split: if_splits)

lemma progress_step:
  assumes "progress h1 t s1 h' s'" "currentPageNum s1 = currentPageNum s + 1"
    "currentPageNum s1 < int (length (pages t))"
  shows "progress h t s h' s'"
  using assms unfolding progress_def by auto

lemma Next_progress:
  "Next h t s = Inr (Some r, h', s') \<Longrightarrow> progress h t s h' s'"
proof (induction h t s rule: Next.induct)
  case (1 h t s)
  show ?case
  proof (cases "currentPage s")
    case None
    with "1.prems" obtain a' where g: "getPage t (currentPageNum s + 1) = Some a'"
      and ne: "currentPageNum s \<noteq> INT_MAX"
      and rec: "Next h t (s\<lparr>currentPageNum := currentPageNum s + 1, currentPage := Some a',
                 currentRecordIndex := 0\<rparr>) = Inr (Some r, h', s')"
      by (subst (asm) Next.simps) (auto split: if_splits option.splits)
    from "1.IH"(1)[OF None ne g rec] getPage_Some[OF g]
    show ?thesis by (auto intro: progress_step)
  next
    case (Some a)
    show ?thesis
    proof (cases "h a")
      case hNone: None
      with Some "1.prems" show ?thesis by (subst (asm) Next.simps) simp
    next
      case hp: (Some p)
      show ?thesis
      proof (cases "numRecords p \<le> currentRecordIndex s")
        case False
        with Some hp "1.prems" have rr: "read_record h p s = Inr (Some r, h', s')"
          by (subst (asm) Next.simps) simp
        from read_record_Inr[OF rr] Some hp show ?thesis
          unfolding progress_def by auto
      next
        case True
        with Some hp "1.prems" obtain h1 a' where ne: "currentPageNum s \<noteq> INT_MAX"
          and d: "delete_Page h a = Inr h1"
          and g: "getPage t (currentPageNum s + 1) = Some a'"
          and rec: "Next h1 t (s\<lparr>currentPageNum := currentPageNum s + 1, currentPage := Some a',
                 currentRecordIndex := 0\<rparr>) = Inr (Some r, h', s')"
          by (subst (asm) Next.simps) (auto split: if_splits option.splits sum.splits)
        from "1.IH"(2)[OF Some hp True ne d g rec] getPage_Some[OF g]
        show ?thesis by (auto intro: progress_step)
      qed
    qed
  qed
qed

lemma Next_rec_progress:
  "Next_rec h t s = Inr (Some r, h', s') \<Longrightarrow> progress h t s h' s'"
proof (induction h t s rule: Next_rec.induct)
  case (1 h t s)
  from "1.prems" obtain a where cp: "currentPage s = Some a"
    by (subst (asm) Next_rec.simps) (auto split: option.splits)
  with "1.prems" obtain p where hp: "h a = Some p"
    by (subst (asm) Next_rec.simps) (auto split: option.splits)
  show ?case
  proof (cases "currentRecordIndex s < numRecords p")
    case True
    with cp hp "1.prems" have rr: "read_record h p s = Inr (Some r, h', s')"
      by (subst (asm) Next_rec.simps) simp
    from read_record_Inr[OF rr] cp hp show ?thesis
      unfolding progress_def by auto
  next
    case False
    with cp hp "1.prems" obtain h1 a' where ne: "currentPageNum s \<noteq> INT_MAX"
      and d: "delete_Page h a = Inr h1"
      and g: "getPage t (currentPageNum s + 1) = Some a'"
      and rec: "Next_rec h1 t (s\<lparr>currentPageNum := currentPageNum s + 1, currentPage := Some a',
             currentRecordIndex := 0\<rparr>) = Inr (Some r, h', s')"
      by (subst (asm) Next_rec.simps) (auto split: if_splits option.splits sum.splits)
    from "1.IH"[OF cp hp False ne d g rec] getPage_Some[OF g]
    show ?thesis by (auto intro: progress_step)
  qed
qed

definition cursor_measure :: "((addr \<rightharpoonup> Page) \<times> Table \<times> TableScanOperator) rel" where
  "cursor_measure = measures
     [\<lambda>(h, t, s). nat (int (length (pages t)) - currentPageNum s),
      \<lambda>(h, t, s). (case currentPage s of
                     None \<Rightarrow> 0
                   | Some a \<Rightarrow> (case h a of
                                None \<Rightarrow> 0
                              | Some p \<Rightarrow> nat (int (length (records p)) - currentRecordIndex s)))]"

lemma progress_decreases:
  assumes "progress h t s h' s'"
  shows "((h', t, s'), (h, t, s)) \<in> cursor_measure"
  using assms unfolding progress_def
proof (elim disjE conjE exE)
  fix a p
  assume "currentPageNum s' = currentPageNum s" "currentPage s' = currentPage s"
    "currentPage s = Some a" "h a = Some p" "h' a = Some p"
    "currentRecordIndex s < int (length (records p))"
    "currentRecordIndex s' = currentRecordIndex s + 1"
  then show ?thesis by (simp add: cursor_measure_def)
next
  assume "currentPageNum s < currentPageNum s'" "currentPageNum s' < int (length (pages t))"
  then show ?thesis by (simp add: cursor_measure_def)
qed

text \<open>
  The loop of \<open>ExecutionEngine::executeSelect\<close> (user_input.cpp):
  \<open>while ((record = tableScan.Next()) != nullptr) std::cout << "Record: " << record\<close>.
  The sink is \<open>std::cout\<close>; \<open>out\<close> is the list of records written to it so far.
\<close>

function executeSelect_loop ::
  "string list \<Rightarrow> (addr \<rightharpoonup> Page) \<Rightarrow> Table \<Rightarrow> TableScanOperator \<Rightarrow>
     fault + (string list \<times> (addr \<rightharpoonup> Page) \<times> TableScanOperator)" where
  "executeSelect_loop out h t s =
     (case Next h t s of
        Inl e \<Rightarrow> Inl e
      | Inr (None, h', s') \<Rightarrow> Inr (out, h', s')
      | Inr (Some record, h', s') \<Rightarrow> executeSelect_loop (out @ [record]) h' t s')"
  by pat_completeness auto
termination
proof (relation "inv_image cursor_measure (\<lambda>(out, h, t, s). (h, t, s))", goal_cases)
  case 1
  show ?case by (simp add: cursor_measure_def)
next
  case (2 out h t s x y z rcd h' s')
  then have "Next h t s = Inr (Some rcd, h', s')" by simp
  from progress_decreases[OF Next_progress[OF this]] show ?case by simp
qed

text \<open>
  \<open>ExecutionEngine::executeSelect\<close>: the operator is a local object, so its destructor
  runs when the function returns.
\<close>

definition executeSelect :: "string \<Rightarrow> State \<Rightarrow> fault + ((error + string list) \<times> State)" where
  "executeSelect tableName st =
     (case getTable st tableName of
        None \<Rightarrow> Inr (Inl NotFound, st)
      | Some t \<Rightarrow>
          (case executeSelect_loop [] (heap st) t (TableScanOperator_ctor t) of
             Inl e \<Rightarrow> Inl e
           | Inr (out, h', s') \<Rightarrow>
               (case TableScanOperator_dtor h' s' of
                  Inl e \<Rightarrow> Inl e
                | Inr h'' \<Rightarrow> Inr (Inr out, st\<lparr>heap := h''\<rparr>))))"

text \<open>
  \<open>ExecutionEngine::execute\<close> (tempCodeRunnerFile.cpp): the same loop over the root
  operator, whose only implementation is the recursive \<open>Next\<close>.
\<close>

function execute ::
  "string list \<Rightarrow> (addr \<rightharpoonup> Page) \<Rightarrow> Table \<Rightarrow> TableScanOperator \<Rightarrow>
     fault + (string list \<times> (addr \<rightharpoonup> Page) \<times> TableScanOperator)" where
  "execute out h t s =
     (case Next_rec h t s of
        Inl e \<Rightarrow> Inl e
      | Inr (None, h', s') \<Rightarrow> Inr (out, h', s')
      | Inr (Some record, h', s') \<Rightarrow> execute (out @ [record]) h' t s')"
  by pat_completeness auto
termination
proof (relation "inv_image cursor_measure (\<lambda>(out, h, t, s). (h, t, s))", goal_cases)
  case 1
  show ?case by (simp add: cursor_measure_def)
next
  case (2 out h t s x y z rcd h' s')
  then have "Next_rec h t s = Inr (Some rcd, h', s')" by simp
  from progress_decreases[OF Next_rec_progress[OF this]] show ?case by simp
qed

declare executeSelect_loop.simps [simp del] execute.simps [simp del]

section \<open>What a scan has left to visit\<close>

text \<open>
  The slots a scan can reach on a page are those below the page's \<open>numRecords\<close>.
  \<open>table_slots\<close> lists them for a whole table in page order, \<open>pending\<close> lists
  those at or after the cursor. \<open>scan_inv\<close> describes an operator in the middle of
  its first pass over a table that owns distinct live pages, none of which claims more
  records than its slot array holds.
\<close>

definition slots :: "Page \<Rightarrow> string option list" where
  "slots p = take (nat (numRecords p)) (records p)"

definition page_slots :: "(addr \<rightharpoonup> Page) \<Rightarrow> addr \<Rightarrow> string option list" where
  "page_slots h a = (case h a of None \<Rightarrow> [] | Some p \<Rightarrow> slots p)"

definition table_slots :: "(addr \<rightharpoonup> Page) \<Rightarrow> Table \<Rightarrow> string option list" where
  "table_slots h t = concat (map (page_slots h) (pages t))"

definition pending :: "(addr \<rightharpoonup> Page) \<Rightarrow> Table \<Rightarrow> TableScanOperator \<Rightarrow> string option list" where
  "pending h t s =
     (case currentPage s of
        None \<Rightarrow> []
      | Some a \<Rightarrow> drop (nat (currentRecordIndex s)) (page_slots h a)
                  @ concat (map (page_slots h) (drop (Suc (nat (currentPageNum s))) (pages t))))"

definition wf_page :: "Page \<Rightarrow> bool" where
  "wf_page p \<longleftrightarrow> numRecords p \<le> int (length (records p))"

definition live_from :: "(addr \<rightharpoonup> Page) \<Rightarrow> Table \<Rightarrow> nat \<Rightarrow> bool" where
  "live_from h t k \<longleftrightarrow>
     (\<forall>i. k \<le> i \<and> i < length (pages t) \<longrightarrow> (\<exists>p. h (pages t ! i) = Some p \<and> wf_page p))"

definition scan_inv :: "(addr \<rightharpoonup> Page) \<Rightarrow> Table \<Rightarrow> TableScanOperator \<Rightarrow> bool" where
  "scan_inv h t s \<longleftrightarrow>
     distinct (pages t) \<and> int (length (pages t)) \<le> INT_MAX \<and>
     0 \<le> currentRecordIndex s \<and> 0 \<le> currentPageNum s \<and>
     (case currentPage s of
        None \<Rightarrow> int (length (pages t)) \<le> currentPageNum s \<and> currentPageNum s < INT_MAX
      | Some a \<Rightarrow> currentPageNum s < int (length (pages t)) \<and> a = pages t ! nat (currentPageNum s)) \<and>
     live_from h t (nat (currentPageNum s))"

definition Next_ok ::
  "(addr \<rightharpoonup> Page) \<Rightarrow> Table \<Rightarrow> TableScanOperator \<Rightarrow>
     fault + (string option \<times> (addr \<rightharpoonup> Page) \<times> TableScanOperator) \<Rightarrow> bool" where
  "Next_ok h t s res \<longleftrightarrow>
     (case pending h t s of
        [] \<Rightarrow> \<exists>h' s'. res = Inr (None, h', s') \<and> currentPage s' = None
      | x # xs \<Rightarrow> \<exists>h' s'. res = Inr (x, h', s') \<and> scan_inv h' t s' \<and> pending h' t s' = xs)"

definition wf_table :: "(addr \<rightharpoonup> Page) \<Rightarrow> Table \<Rightarrow> bool" where
  "wf_table h t \<longleftrightarrow>
     distinct (pages t) \<and> int (length (pages t)) \<le> INT_MAX \<and>
     (\<forall>a \<in> set (pages t). \<exists>p. h a = Some p \<and> wf_page p)"

text \<open>What a driver hands to its sink when the slots still to visit are \<open>xs\<close>.\<close>

definition forwarded :: "string option list \<Rightarrow> string list" where
  "forwarded xs = map the (takeWhile (\<lambda>x. x \<noteq> None) xs)"

text \<open>
  The pages \<open>Page\<close>'s constructor makes for a table: \<open>numRecords\<close> equals the
  table's capacity, and so does the length of the slot array.
\<close>

definition constructed_pages :: "State \<Rightarrow> Table \<Rightarrow> bool" where
  "constructed_pages st t \<longleftrightarrow>
     list_all (\<lambda>a. case heap st a of
                     None \<Rightarrow> False
                   | Some p \<Rightarrow> numRecords p = numRecordsPerPage t
                              \<and> int (length (records p)) = numRecordsPerPage t) (pages t)"

section \<open>Sequences of calls\<close>

text \<open>
  \<open>n\<close> successive calls of \<open>Next\<close> on one operator, with the values they return;
  a fault ends the sequence.
\<close>

fun Next_calls ::
  "nat \<Rightarrow> (addr \<rightharpoonup> Page) \<Rightarrow> Table \<Rightarrow> TableScanOperator \<Rightarrow>
     fault + (string option list \<times> (addr \<rightharpoonup> Page) \<times> TableScanOperator)" where
  "Next_calls 0 h t s = Inr ([], h, s)"
| "Next_calls (Suc n) h t s =
     (case Next h t s of
        Inl e \<Rightarrow> Inl e
      | Inr (r, h', s') \<Rightarrow>
          (case Next_calls n h' t s' of
             Inl e \<Rightarrow> Inl e
           | Inr (rs, h'', s'') \<Rightarrow> Inr (r # rs, h'', s'')))"

fun Next_rec_calls ::
  "nat \<Rightarrow> (addr \<rightharpoonup> Page) \<Rightarrow> Table \<Rightarrow> TableScanOperator \<Rightarrow>
     fault + (string option list \<times> (addr \<rightharpoonup> Page) \<times> TableScanOperator)" where
  "Next_rec_calls 0 h t s = Inr ([], h, s)"
| "Next_rec_calls (Suc n) h t s =
     (case Next_rec h t s of
        Inl e \<Rightarrow> Inl e
      | Inr (r, h', s') \<Rightarrow>
          (case Next_rec_calls n h' t s' of
             Inl e \<Rightarrow> Inl e
           | Inr (rs, h'', s'') \<Rightarrow> Inr (r # rs, h'', s'')))"

section \<open>Example states\<close>

text \<open>\<open>Database db;\<close> at the start of \<open>main\<close>: no table, no page.\<close>

definition initial_State :: State where
  "initial_State = \<lparr>tables = Map.empty, heap = Map.empty, next_free = 0\<rparr>"

text \<open>
  A table of capacity two with two pages, the second of which has an unwritten first
  slot below its record count.
\<close>

definition two_pages :: State where
  "two_pages =
     \<lparr>tables = [''X'' \<mapsto> \<lparr>name = ''X'', pages = [0, 1], numRecordsPerPage = 2\<rparr>],
      heap = [0 \<mapsto> \<lparr>header = None, records = [Some ''A'', Some ''B''], numRecords = 2\<rparr>,
              1 \<mapsto> \<lparr>header = None, records = [None, Some ''C''], numRecords = 2\<rparr>],
      next_free = 2\<rparr>"


text \<open>
  A table of capacity one with the one page \<open>addPage\<close> gives it: the record count is
  the capacity and the only slot is unwritten.
\<close>

definition one_page :: State where
  "one_page =
     \<lparr>tables = [''T'' \<mapsto> \<lparr>name = ''T'', pages = [0], numRecordsPerPage = 1\<rparr>],
      heap = [0 \<mapsto> \<lparr>header = None, records = [None], numRecords = 1\<rparr>],
      next_free = 1\<rparr>"

section \<open>The scan visits the pending slots in order\<close>

lemma live_from_delete:
  assumes "live_from h t k" "distinct (pages t)" "k < length (pages t)"
  shows "live_from (h(pages t ! k := None)) t (Suc k)"
  using assms unfolding live_from_def
  by (auto simp: nth_eq_iff_index_eq)

lemma page_slots_delete:
  assumes "distinct (pages t)" "k < length (pages t)"
  shows "map (page_slots (h(pages t ! k := None))) (drop (Suc k) (pages t))
         = map (page_slots h) (drop (Suc k) (pages t))"
proof (rule map_cong [OF refl])
  fix a assume "a \<in> set (drop (Suc k) (pages t))"
  then obtain j where "j < length (pages t) - Suc k" "a = pages t ! (Suc k + j)"
    by (auto simp: in_set_conv_nth)
  with assms have "a \<noteq> pages t ! k" by (auto simp: nth_eq_iff_index_eq)
  then show "page_slots (h(pages t ! k := None)) a = page_slots h a"
    by (simp add: page_slots_def)
qed

lemma drop_slots_read:
  assumes "0 \<le> i" "i < numRecords p" "wf_page p"
  shows "drop (nat i) (slots p) = records p ! nat i # drop (nat (i + 1)) (slots p)"
proof -
  from assms have "nat i < length (slots p)"
    by (auto simp: slots_def wf_page_def)
  then have "drop (nat i) (slots p) = slots p ! nat i # drop (Suc (nat i)) (slots p)"
    by (simp add: Cons_nth_drop_Suc)
  moreover from assms have "slots p ! nat i = records p ! nat i"
    by (simp add: slots_def)
  moreover from assms have "Suc (nat i) = nat (i + 1)" by simp
  ultimately show ?thesis by simp
qed

lemma drop_slots_done:
  assumes "0 \<le> i" "numRecords p \<le> i"
  shows "drop (nat i) (slots p) = []"
  using assms by (simp add: slots_def)


lemma Next_spec:
  "scan_inv h t s \<Longrightarrow> Next_ok h t s (Next h t s)"
proof (induction h t s rule: Next.induct)
  case (1 h t s)
  note inv = "1.prems"
  show ?case
  proof (cases "currentPage s")
    case None
    with inv have "getPage t (currentPageNum s + 1) = None" "currentPageNum s \<noteq> INT_MAX"
      by (auto simp: scan_inv_def getPage_def)
    with None have "Next h t s = Inr (None, h, s\<lparr>currentPageNum := currentPageNum s + 1,
                                          currentPage := None\<rparr>)"
      by (subst Next.simps) simp
    with None show ?thesis by (simp add: Next_ok_def pending_def)
  next
    case (Some a)
    with inv have k: "0 \<le> currentPageNum s" "nat (currentPageNum s) < length (pages t)"
      and a: "a = pages t ! nat (currentPageNum s)"
      and d: "distinct (pages t)" and mx: "int (length (pages t)) \<le> INT_MAX"
      and i0: "0 \<le> currentRecordIndex s"
      and lv: "live_from h t (nat (currentPageNum s))"
      by (auto simp: scan_inv_def)
    from lv k a obtain p where hp: "h a = Some p" and wp: "wf_page p"
      unfolding live_from_def by blast
    show ?thesis
    proof (cases "numRecords p \<le> currentRecordIndex s")
      case False
      with Some hp have nx: "Next h t s = read_record h p s"
        by (subst Next.simps) simp
      from False wp i0 have rr: "read_record h p s
             = Inr (records p ! nat (currentRecordIndex s), h,
                    s\<lparr>currentRecordIndex := currentRecordIndex s + 1\<rparr>)"
        by (auto simp: read_record_def wf_page_def)
      from False i0 wp have dr: "drop (nat (currentRecordIndex s)) (slots p)
          = records p ! nat (currentRecordIndex s) # drop (nat (currentRecordIndex s + 1)) (slots p)"
        by (intro drop_slots_read) auto
      have inv': "scan_inv h t (s\<lparr>currentRecordIndex := currentRecordIndex s + 1\<rparr>)"
        using inv i0 Some by (simp add: scan_inv_def)
      show ?thesis
        unfolding nx rr Next_ok_def using Some hp dr inv'
        by (simp add: pending_def page_slots_def)
    next
      case True
      from k mx have ne: "currentPageNum s \<noteq> INT_MAX" by auto
      from hp wp have del: "delete_Page h a = Inr (h(a := None))"
        by (simp add: delete_Page_def wf_page_def)
      from True i0 have dn: "drop (nat (currentRecordIndex s)) (slots p) = []"
        by (intro drop_slots_done) auto
      have same: "map (page_slots (h(a := None))) (drop (Suc (nat (currentPageNum s))) (pages t))
         = map (page_slots h) (drop (Suc (nat (currentPageNum s))) (pages t))"
        unfolding a using d k by (intro page_slots_delete) auto
      have pend: "pending h t s
          = concat (map (page_slots h) (drop (Suc (nat (currentPageNum s))) (pages t)))"
        using Some hp dn by (simp add: pending_def page_slots_def)
      show ?thesis
      proof (cases "getPage t (currentPageNum s + 1)")
        case gNone: None
        with Some hp True ne del have nx: "Next h t s
            = Inr (None, h(a := None), s\<lparr>currentPageNum := currentPageNum s + 1,
                                          currentPage := None\<rparr>)"
          by (subst Next.simps) simp
        from gNone k have "length (pages t) \<le> Suc (nat (currentPageNum s))"
          by (auto simp: getPage_def split: if_splits)
        with pend have "pending h t s = []" by simp
        with nx show ?thesis by (simp add: Next_ok_def)
      next
        case g: (Some a')
        let ?s1 = "s\<lparr>currentPageNum := currentPageNum s + 1, currentPage := Some a',
                     currentRecordIndex := 0\<rparr>"
        let ?h1 = "h(a := None)"
        from Some hp True ne del g have nx: "Next h t s = Next ?h1 t ?s1"
          by (subst Next.simps) simp
        from getPage_Some[OF g] k have k1: "Suc (nat (currentPageNum s)) < length (pages t)"
          and a': "a' = pages t ! Suc (nat (currentPageNum s))"
          and n1: "nat (currentPageNum s + 1) = Suc (nat (currentPageNum s))"
          by (auto simp: nat_add_distrib)
        have lv1: "live_from ?h1 t (Suc (nat (currentPageNum s)))"
          unfolding a using lv d k by (intro live_from_delete) auto
        have inv1: "scan_inv ?h1 t ?s1"
          using d mx k k1 a' n1 lv1 by (simp add: scan_inv_def)
        have "pending ?h1 t ?s1
            = page_slots ?h1 a' @ concat (map (page_slots ?h1)
                 (drop (Suc (Suc (nat (currentPageNum s)))) (pages t)))"
          by (simp add: pending_def n1)
        also have "\<dots> = concat (map (page_slots ?h1) (drop (Suc (nat (currentPageNum s))) (pages t)))"
          using k1 a' by (simp add: Cons_nth_drop_Suc [symmetric])
        also have "\<dots> = pending h t s" by (simp only: same pend)
        finally have pend1: "pending ?h1 t ?s1 = pending h t s" .
        have ok1: "Next_ok ?h1 t ?s1 (Next ?h1 t ?s1)"
          by (rule "1.IH"(2)[OF Some hp True ne del g inv1])
        have "Next_ok h t s (Next ?h1 t ?s1)"
          using ok1 unfolding Next_ok_def pend1 .
        then show ?thesis unfolding nx .
      qed
    qed
  qed
qed


lemma Next_rec_eq_Next:
  "currentPage s \<noteq> None \<Longrightarrow> Next_rec h t s = Next h t s"
proof (induction h t s rule: Next.induct)
  case (1 h t s)
  then obtain a where cp: "currentPage s = Some a" by auto
  show ?case
  proof (cases "h a")
    case None
    with cp show ?thesis by (subst Next.simps, subst Next_rec.simps) simp
  next
    case (Some p)
    show ?thesis
    proof (cases "numRecords p \<le> currentRecordIndex s")
      case False
      with cp Some show ?thesis by (subst Next.simps, subst Next_rec.simps) simp
    next
      case True
      show ?thesis
      proof (cases "currentPageNum s = INT_MAX")
        case mx: True
        with cp Some True show ?thesis by (subst Next.simps, subst Next_rec.simps) simp
      next
        case ne: False
        show ?thesis
        proof (cases "delete_Page h a")
          case (Inl e)
          with cp Some True ne show ?thesis by (subst Next.simps, subst Next_rec.simps) simp
        next
          case (Inr h1)
          show ?thesis
          proof (cases "getPage t (currentPageNum s + 1)")
            case None
            with cp Some True ne Inr show ?thesis
              by (subst Next.simps, subst Next_rec.simps) simp
          next
            case g: (Some a')
            from "1.IH"(2)[OF cp Some True ne Inr g] cp Some True ne Inr g show ?thesis
              by (subst Next.simps, subst Next_rec.simps) simp
          qed
        qed
      qed
    qed
  qed
qed

lemma Next_rec_spec:
  assumes "scan_inv h t s"
  shows "Next_ok h t s (Next_rec h t s)"
proof (cases "currentPage s")
  case None
  then have "Next_rec h t s = Inr (None, h, s)" by (subst Next_rec.simps) simp
  with None show ?thesis by (simp add: Next_ok_def pending_def)
next
  case (Some a)
  then have "Next_rec h t s = Next h t s" by (simp add: Next_rec_eq_Next)
  with Next_spec[OF assms] show ?thesis by simp
qed

lemma fresh_scan_inv:
  assumes "wf_table h t"
  shows "scan_inv h t (TableScanOperator_ctor t)"
    and "pending h t (TableScanOperator_ctor t) = table_slots h t"
proof -
  from assms have lv: "live_from h t 0"
    by (auto simp: wf_table_def live_from_def)
  show "scan_inv h t (TableScanOperator_ctor t)"
    using assms lv
    by (cases "pages t")
       (auto simp: wf_table_def scan_inv_def TableScanOperator_ctor_def getPage_def INT_MAX_def)
  show "pending h t (TableScanOperator_ctor t) = table_slots h t"
    by (cases "pages t")
       (auto simp: pending_def table_slots_def TableScanOperator_ctor_def getPage_def)
qed

lemma dtor_after_scan:
  assumes "scan_inv h t s \<or> currentPage s = None"
  shows "\<exists>h'. TableScanOperator_dtor h s = Inr h'"
proof (cases "currentPage s")
  case None
  then show ?thesis by (simp add: TableScanOperator_dtor_def)
next
  case (Some a)
  with assms have "live_from h t (nat (currentPageNum s))"
    "nat (currentPageNum s) < length (pages t)" "a = pages t ! nat (currentPageNum s)"
    by (auto simp: scan_inv_def)
  then obtain p where "h a = Some p" "wf_page p" unfolding live_from_def by blast
  with Some show ?thesis
    by (simp add: TableScanOperator_dtor_def delete_Page_def wf_page_def)
qed


lemma executeSelect_loop_spec:
  assumes "scan_inv h t s"
  shows "\<exists>h' s'. executeSelect_loop out h t s = Inr (out @ forwarded (pending h t s), h', s')
           \<and> (scan_inv h' t s' \<or> currentPage s' = None)"
  using assms
proof (induction "pending h t s" arbitrary: out h s)
  case Nil
  from Next_spec[OF Nil.prems] Nil.hyps[symmetric]
  obtain h' s' where "Next h t s = Inr (None, h', s')" "currentPage s' = None"
    by (auto simp: Next_ok_def)
  with Nil.hyps[symmetric] show ?case
    by (subst executeSelect_loop.simps) (simp add: forwarded_def)
next
  case (Cons x xs)
  from Next_spec[OF Cons.prems] Cons.hyps(2)[symmetric]
  obtain h' s' where nx: "Next h t s = Inr (x, h', s')" and inv': "scan_inv h' t s'"
    and p': "pending h' t s' = xs"
    by (auto simp: Next_ok_def)
  show ?case
  proof (cases x)
    case None
    with nx inv' Cons.hyps(2)[symmetric] show ?thesis
      by (subst executeSelect_loop.simps) (simp add: forwarded_def)
  next
    case (Some r)
    from Cons.hyps(1)[OF p'[symmetric] inv', of "out @ [r]"] p'
    obtain h'' s'' where "executeSelect_loop (out @ [r]) h' t s'
         = Inr (out @ [r] @ forwarded xs, h'', s'')" "scan_inv h'' t s'' \<or> currentPage s'' = None"
      by auto
    with nx Some Cons.hyps(2)[symmetric] show ?thesis
      by (subst executeSelect_loop.simps) (simp add: forwarded_def)
  qed
qed

lemma execute_spec:
  assumes "scan_inv h t s"
  shows "\<exists>h' s'. execute out h t s = Inr (out @ forwarded (pending h t s), h', s')
           \<and> (scan_inv h' t s' \<or> currentPage s' = None)"
  using assms
proof (induction "pending h t s" arbitrary: out h s)
  case Nil
  from Next_rec_spec[OF Nil.prems] Nil.hyps[symmetric]
  obtain h' s' where "Next_rec h t s = Inr (None, h', s')" "currentPage s' = None"
    by (auto simp: Next_ok_def)
  with Nil.hyps[symmetric] show ?case
    by (subst execute.simps) (simp add: forwarded_def)
next
  case (Cons x xs)
  from Next_rec_spec[OF Cons.prems] Cons.hyps(2)[symmetric]
  obtain h' s' where nx: "Next_rec h t s = Inr (x, h', s')" and inv': "scan_inv h' t s'"
    and p': "pending h' t s' = xs"
    by (auto simp: Next_ok_def)
  show ?case
  proof (cases x)
    case None
    with nx inv' Cons.hyps(2)[symmetric] show ?thesis
      by (subst execute.simps) (simp add: forwarded_def)
  next
    case (Some r)
    from Cons.hyps(1)[OF p'[symmetric] inv', of "out @ [r]"] p'
    obtain h'' s'' where "execute (out @ [r]) h' t s'
         = Inr (out @ [r] @ forwarded xs, h'', s'')" "scan_inv h'' t s'' \<or> currentPage s'' = None"
      by auto
    with nx Some Cons.hyps(2)[symmetric] show ?thesis
      by (subst execute.simps) (simp add: forwarded_def)
  qed
qed

text \<open>
  Whatever the state, a driver loop hands on the values of the calls of \<open>Next\<close> that
  precede the first call returning \<open>nullptr\<close>, and ends with that call; it faults only
  where a call of \<open>Next\<close> does.
\<close>

lemma executeSelect_loop_forwards:
  "\<exists>n rs h1 s1. Next_calls n h t s = Inr (map Some rs, h1, s1) \<and>
     ((\<exists>h2 s2. Next h1 t s1 = Inr (None, h2, s2)
               \<and> executeSelect_loop out h t s = Inr (out @ rs, h2, s2))
      \<or> (\<exists>e. Next h1 t s1 = Inl e \<and> executeSelect_loop out h t s = Inl e))"
proof (induction out h t s rule: executeSelect_loop.induct)
  case (1 out h t s)
  show ?case
  proof (cases "Next h t s")
    case (Inl e)
    then have "Next_calls 0 h t s = Inr (map Some [], h, s)
        \<and> Next h t s = Inl e \<and> executeSelect_loop out h t s = Inl e"
      by (subst executeSelect_loop.simps) simp
    then show ?thesis by blast
  next
    case (Inr res)
    then obtain x h' s' where nx: "Next h t s = Inr (x, h', s')" by (cases res) auto
    show ?thesis
    proof (cases x)
      case None
      with nx have "Next_calls 0 h t s = Inr (map Some [], h, s)
          \<and> Next h t s = Inr (None, h', s')
          \<and> executeSelect_loop out h t s = Inr (out @ [], h', s')"
        by (subst executeSelect_loop.simps) simp
      then show ?thesis by blast
    next
      case (Some r)
      from "1.IH"[OF nx[unfolded Some] refl refl refl]
      obtain n rs h1 s1 where c: "Next_calls n h' t s' = Inr (map Some rs, h1, s1)"
        and d: "(\<exists>h2 s2. Next h1 t s1 = Inr (None, h2, s2)
                 \<and> executeSelect_loop (out @ [r]) h' t s' = Inr ((out @ [r]) @ rs, h2, s2))
             \<or> (\<exists>e. Next h1 t s1 = Inl e \<and> executeSelect_loop (out @ [r]) h' t s' = Inl e)"
        by blast
      from nx Some have u: "executeSelect_loop out h t s = executeSelect_loop (out @ [r]) h' t s'"
        by (subst executeSelect_loop.simps) simp
      from nx Some c have c': "Next_calls (Suc n) h t s = Inr (map Some (r # rs), h1, s1)"
        by simp
      from d have "(\<exists>h2 s2. Next h1 t s1 = Inr (None, h2, s2)
                 \<and> executeSelect_loop out h t s = Inr (out @ (r # rs), h2, s2))
             \<or> (\<exists>e. Next h1 t s1 = Inl e \<and> executeSelect_loop out h t s = Inl e)"
        unfolding u by simp
      with c' show ?thesis by blast
    qed
  qed
qed

lemma execute_forwards:
  "\<exists>n rs h1 s1. Next_rec_calls n h t s = Inr (map Some rs, h1, s1) \<and>
     ((\<exists>h2 s2. Next_rec h1 t s1 = Inr (None, h2, s2)
               \<and> execute out h t s = Inr (out @ rs, h2, s2))
      \<or> (\<exists>e. Next_rec h1 t s1 = Inl e \<and> execute out h t s = Inl e))"
proof (induction out h t s rule: execute.induct)
  case (1 out h t s)
  show ?case
  proof (cases "Next_rec h t s")
    case (Inl e)
    then have "Next_rec_calls 0 h t s = Inr (map Some [], h, s)
        \<and> Next_rec h t s = Inl e \<and> execute out h t s = Inl e"
      by (subst execute.simps) simp
    then show ?thesis by blast
  next
    case (Inr res)
    then obtain x h' s' where nx: "Next_rec h t s = Inr (x, h', s')" by (cases res) auto
    show ?thesis
    proof (cases x)
      case None
      with nx have "Next_rec_calls 0 h t s = Inr (map Some [], h, s)
          \<and> Next_rec h t s = Inr (None, h', s')
          \<and> execute out h t s = Inr (out @ [], h', s')"
        by (subst execute.simps) simp
      then show ?thesis by blast
    next
      case (Some r)
      from "1.IH"[OF nx[unfolded Some] refl refl refl]
      obtain n rs h1 s1 where c: "Next_rec_calls n h' t s' = Inr (map Some rs, h1, s1)"
        and d: "(\<exists>h2 s2. Next_rec h1 t s1 = Inr (None, h2, s2)
                 \<and> execute (out @ [r]) h' t s' = Inr ((out @ [r]) @ rs, h2, s2))
             \<or> (\<exists>e. Next_rec h1 t s1 = Inl e \<and> execute (out @ [r]) h' t s' = Inl e)"
        by blast
      from nx Some have u: "execute out h t s = execute (out @ [r]) h' t s'"
        by (subst execute.simps) simp
      from nx Some c have c': "Next_rec_calls (Suc n) h t s = Inr (map Some (r # rs), h1, s1)"
        by simp
      from d have "(\<exists>h2 s2. Next_rec h1 t s1 = Inr (None, h2, s2)
                 \<and> execute out h t s = Inr (out @ (r # rs), h2, s2))
             \<or> (\<exists>e. Next_rec h1 t s1 = Inl e \<and> execute out h t s = Inl e)"
        unfolding u by simp
      with c' show ?thesis by blast
    qed
  qed
qed

section \<open>Insertion into constructor-made pages\<close>

text \<open>
  \<open>addRecord\<close> takes \<open>numRecords\<close> of the last page as the index of the next free
  slot. On a page as the constructor made it that index is the length of the slot array,
  so the write falls outside the array, and a table that starts without pages only ever
  has such pages.
\<close>

lemma replicate_two: "replicate 2 x = [x, x]"
  by (simp add: numeral_2_eq_2)

lemma addPage_constructed_pages:
  assumes "constructed_pages st t" "addPage t st = Inr (t', st')"
  shows "constructed_pages st' t'"
  using assms
  by (auto simp: constructed_pages_def addPage_def Page_ctor_def list_all_iff
           split: if_splits option.splits)

lemma addRecord_constructed_pages_faults:
  assumes "constructed_pages st t"
  shows "\<exists>e. addRecord record t st = Inl e"
proof (cases "addPage t st")
  case (Inl e)
  with assms show ?thesis
    by (cases "pages t = []")
       (auto simp: addRecord_def constructed_pages_def list_all_iff split: option.splits)
next
  case (Inr r)
  then obtain t' st' where r: "addPage t st = Inr (t', st')" by (cases r) auto
  then have "\<exists>e. (case heap st' (last (pages t')) of
             None \<Rightarrow> Inl UseAfterFree
           | Some lastPage \<Rightarrow>
               let recordIndex = numRecords lastPage in
               if recordIndex = INT_MAX then Inl SignedOverflow
               else if recordIndex < 0 \<or> int (length (records lastPage)) \<le> recordIndex
               then Inl HeapOverflow
               else Inr (t', st'\<lparr>heap := (heap st')(last (pages t') \<mapsto>
                      lastPage\<lparr>numRecords := recordIndex + 1,
                               records := (records lastPage)[nat recordIndex := Some (strcpy record)]\<rparr>)\<rparr>))
          = (Inl e :: fault + (Table \<times> State))"
    by (auto simp: addPage_def Page_ctor_def Let_def split: if_splits)
  with r assms show ?thesis
    by (cases "pages t = []")
       (auto simp: addRecord_def constructed_pages_def list_all_iff split: option.splits)
qed

section \<open>Deleting one of two pages\<close>


section \<open>Insertion and scan\<close>

text \<open>
  C1. Scenario 2 of the specification, \<open>CreateTable("X", 2)\<close> and an insertion of
  \<open>A\<close>: \<open>insertInto\<close> writes slot 2 of a two-slot array. The page \<open>addRecord\<close>
  appended has \<open>nullptr\<close> in both slots, and a scan of it hands nothing to the sink,
  with the record count 2 of the new page as with the count 3 that the increment leaves:
  the payload is not among the slots a scan reads.
\<close>

theorem insert_then_scan_loses_the_record:
  "insertInto ''X'' ''A'' (snd (createTable ''X'' 2 initial_State)) = Inl HeapOverflow
   \<and> addPage \<lparr>name = ''X'', pages = [], numRecordsPerPage = 2\<rparr> initial_State
       = Inr (\<lparr>name = ''X'', pages = [0], numRecordsPerPage = 2\<rparr>,
              \<lparr>tables = Map.empty,
               heap = [0 \<mapsto> \<lparr>header = None, records = [None, None], numRecords = 2\<rparr>],
               next_free = 1\<rparr>)
   \<and> executeSelect_loop []
        [0 \<mapsto> \<lparr>header = None, records = [None, None], numRecords = 2\<rparr>]
        \<lparr>name = ''X'', pages = [0], numRecordsPerPage = 2\<rparr>
        (TableScanOperator_ctor \<lparr>name = ''X'', pages = [0], numRecordsPerPage = 2\<rparr>)
       = Inr ([], [0 \<mapsto> \<lparr>header = None, records = [None, None], numRecords = 2\<rparr>],
              \<lparr>currentRecordIndex = 1, currentPageNum = 0, currentPage = Some 0\<rparr>)
   \<and> executeSelect_loop []
        [0 \<mapsto> \<lparr>header = None, records = [None, None], numRecords = 3\<rparr>]
        \<lparr>name = ''X'', pages = [0], numRecordsPerPage = 2\<rparr>
        (TableScanOperator_ctor \<lparr>name = ''X'', pages = [0], numRecordsPerPage = 2\<rparr>)
       = Inr ([], [0 \<mapsto> \<lparr>header = None, records = [None, None], numRecords = 3\<rparr>],
              \<lparr>currentRecordIndex = 1, currentPageNum = 0, currentPage = Some 0\<rparr>)"
  by (simp add: insertInto_def createTable_def initial_State_def addRecord_def addPage_def
      Page_ctor_def INT_MAX_def executeSelect_loop.simps Next.simps TableScanOperator_ctor_def
      getPage_def read_record_def replicate_two)

text \<open>
  C2. The page \<open>addRecord\<close> appends to a table without pages has record count 2, the
  capacity, not 0; the payload then goes to slot 2, past the end of the slot array. The
  same happens when the last page is such a page: it counts as full, a second page is
  appended, and the write falls outside that one.
\<close>

theorem addRecord_appends_a_full_page:
  "addPage \<lparr>name = ''X'', pages = [], numRecordsPerPage = 2\<rparr> initial_State
       = Inr (\<lparr>name = ''X'', pages = [0], numRecordsPerPage = 2\<rparr>,
              \<lparr>tables = Map.empty,
               heap = [0 \<mapsto> \<lparr>header = None, records = [None, None], numRecords = 2\<rparr>],
               next_free = 1\<rparr>)
   \<and> addRecord ''A'' \<lparr>name = ''X'', pages = [], numRecordsPerPage = 2\<rparr> initial_State
       = Inl HeapOverflow
   \<and> addRecord ''A'' \<lparr>name = ''X'', pages = [0], numRecordsPerPage = 2\<rparr>
        \<lparr>tables = Map.empty,
         heap = [0 \<mapsto> \<lparr>header = None, records = [None, None], numRecords = 2\<rparr>],
         next_free = 1\<rparr>
       = Inl HeapOverflow"
  by (simp add: addRecord_def addPage_def Page_ctor_def initial_State_def INT_MAX_def
      replicate_two)

text \<open>
  C3. For every capacity, the first \<open>addRecord\<close> on a table without pages does not
  return normally: the allocation throws for a negative capacity, and otherwise the
  record count of the new page is already the capacity, so that the increment overflows
  (capacity \<open>INT_MAX\<close>) or the write is out of bounds. No table with one record on
  one page comes out of it.
\<close>

theorem first_addRecord_faults:
  "addRecord record \<lparr>name = nm, pages = [], numRecordsPerPage = c\<rparr> st
     = Inl (if c < 0 then BadArrayNewLength
            else if c = INT_MAX then SignedOverflow else HeapOverflow)"
  by (simp add: addRecord_def addPage_def Page_ctor_def)

section \<open>Ownership of pages\<close>

text \<open>
  C4. A table of capacity one with one page, as \<open>addPage\<close> makes it. Two calls of
  \<open>Next\<close>, in either source file, leave the free store without the page the table
  still lists; so does destroying a freshly constructed operator. A second operator on
  the same table then dereferences the deleted page.
\<close>

theorem scan_deletes_pages_of_the_table:
  "addPage \<lparr>name = ''T'', pages = [], numRecordsPerPage = 1\<rparr> initial_State
       = Inr (\<lparr>name = ''T'', pages = [0], numRecordsPerPage = 1\<rparr>,
              \<lparr>tables = Map.empty,
               heap = [0 \<mapsto> \<lparr>header = None, records = [None], numRecords = 1\<rparr>],
               next_free = 1\<rparr>)
   \<and> Next_calls 2 [0 \<mapsto> \<lparr>header = None, records = [None], numRecords = 1\<rparr>]
        \<lparr>name = ''T'', pages = [0], numRecordsPerPage = 1\<rparr>
        (TableScanOperator_ctor \<lparr>name = ''T'', pages = [0], numRecordsPerPage = 1\<rparr>)
       = Inr ([None, None], Map.empty,
              \<lparr>currentRecordIndex = 1, currentPageNum = 1, currentPage = None\<rparr>)
   \<and> Next_rec_calls 2 [0 \<mapsto> \<lparr>header = None, records = [None], numRecords = 1\<rparr>]
        \<lparr>name = ''T'', pages = [0], numRecordsPerPage = 1\<rparr>
        (TableScanOperator_ctor \<lparr>name = ''T'', pages = [0], numRecordsPerPage = 1\<rparr>)
       = Inr ([None, None], Map.empty,
              \<lparr>currentRecordIndex = 1, currentPageNum = 1, currentPage = None\<rparr>)
   \<and> TableScanOperator_dtor [0 \<mapsto> \<lparr>header = None, records = [None], numRecords = 1\<rparr>]
        (TableScanOperator_ctor \<lparr>name = ''T'', pages = [0], numRecordsPerPage = 1\<rparr>)
       = Inr Map.empty
   \<and> Next Map.empty \<lparr>name = ''T'', pages = [0], numRecordsPerPage = 1\<rparr>
        (TableScanOperator_ctor \<lparr>name = ''T'', pages = [0], numRecordsPerPage = 1\<rparr>)
       = Inl UseAfterFree"
  by (simp add: addPage_def Page_ctor_def initial_State_def numeral_2_eq_2
      Next.simps Next_rec.simps TableScanOperator_ctor_def TableScanOperator_dtor_def
      getPage_def read_record_def delete_Page_def INT_MAX_def)

section \<open>Exhaustion\<close>


section \<open>Catalog errors\<close>

text \<open>
  C6. \<open>createTable\<close> on a name that is already bound reports \<open>AlreadyExists\<close>
  and returns the state it was given: the catalog, the bound table and every page in the
  free store are as before.
\<close>

theorem createTable_existing_name:
  assumes "tables st nm = Some t"
  shows "createTable nm recordsPerPage st = (Some AlreadyExists, st)
         \<and> getTable (snd (createTable nm recordsPerPage st)) nm = Some t
         \<and> heap (snd (createTable nm recordsPerPage st)) = heap st"
  using assms by (simp add: createTable_def getTable_def)

text \<open>Scenario 4 of the specification: \<open>CreateTable("T", 5)\<close> twice.\<close>

theorem createTable_existing_name_witness:
  "tables (snd (createTable ''T'' 5 initial_State)) ''T''
     = Some \<lparr>name = ''T'', pages = [], numRecordsPerPage = 5\<rparr>
   \<and> createTable ''T'' 5 (snd (createTable ''T'' 5 initial_State))
     = (Some AlreadyExists, snd (createTable ''T'' 5 initial_State))"
proof -
  have h: "tables (snd (createTable ''T'' 5 initial_State)) ''T''
     = Some \<lparr>name = ''T'', pages = [], numRecordsPerPage = 5\<rparr>"
    by (simp add: createTable_def initial_State_def)
  from createTable_existing_name [OF h, of 5] h show ?thesis by simp
qed

text \<open>
  C7. \<open>insertInto\<close> on an unbound name reports \<open>NotFound\<close> and returns the state it
  was given: no table is created and nothing is modified.
\<close>

theorem insertInto_unbound_name:
  assumes "tables st tableName = None"
  shows "insertInto tableName record st = Inr (Some NotFound, st)"
  using assms by (simp add: insertInto_def)

text \<open>Scenario 3 of the specification: \<open>InsertRecord("Ghost", "x")\<close> on an empty catalog.\<close>

theorem insertInto_unbound_name_witness:
  "tables initial_State ''Ghost'' = None
   \<and> insertInto ''Ghost'' ''x'' initial_State = Inr (Some NotFound, initial_State)
   \<and> dom (tables initial_State) = {}"
proof -
  have h: "tables initial_State ''Ghost'' = None" by (simp add: initial_State_def)
  from insertInto_unbound_name [OF h, of "''x''"] h show ?thesis
    by (simp add: initial_State_def)
qed

text \<open>
  C8. \<open>createTable\<close> never looks at \<open>recordsPerPage\<close>. With capacity zero and with
  a negative capacity it reports no error and binds the table.
\<close>

theorem createTable_nonpositive_capacity_counterexample:
  "createTable ''T'' 0 initial_State
     = (None, initial_State\<lparr>tables := [''T'' \<mapsto> \<lparr>name = ''T'', pages = [], numRecordsPerPage = 0\<rparr>]\<rparr>)
   \<and> createTable ''U'' (- 3) initial_State
     = (None, initial_State\<lparr>tables := [''U'' \<mapsto> \<lparr>name = ''U'', pages = [], numRecordsPerPage = - 3\<rparr>]\<rparr>)"
  by (simp add: createTable_def initial_State_def)

text \<open>
  C8, as the code has it: for an unbound name \<open>createTable\<close> succeeds whatever the
  capacity, binds the name to a table with no pages and exactly that capacity, and
  changes no other binding and no page.
\<close>

theorem createTable_unbound_name:
  assumes "tables st nm = None"
  shows "fst (createTable nm recordsPerPage st) = None
         \<and> getTable (snd (createTable nm recordsPerPage st)) nm
             = Some \<lparr>name = nm, pages = [], numRecordsPerPage = recordsPerPage\<rparr>
         \<and> (\<forall>other. other \<noteq> nm \<longrightarrow>
               getTable (snd (createTable nm recordsPerPage st)) other = getTable st other)
         \<and> heap (snd (createTable nm recordsPerPage st)) = heap st"
  using assms by (simp add: createTable_def getTable_def)

theorem createTable_unbound_name_witness:
  "tables initial_State ''T'' = None
   \<and> fst (createTable ''T'' (- 3) initial_State) = None
   \<and> getTable (snd (createTable ''T'' (- 3) initial_State)) ''T''
        = Some \<lparr>name = ''T'', pages = [], numRecordsPerPage = - 3\<rparr>"
proof -
  have h: "tables initial_State ''T'' = None" by (simp add: initial_State_def)
  from createTable_unbound_name [OF h, of "- 3"] h show ?thesis by simp
qed

section \<open>Scan of a table without pages\<close>



section \<open>Execution driver and the in-band end of stream\<close>

text \<open>
  What the drivers do. In every state each driver calls \<open>Next\<close> some \<open>n + 1\<close>
  times: the first \<open>n\<close> calls return exactly the records the sink receives, in order,
  and the last returns \<open>nullptr\<close>, upon which the driver returns, or the last call
  faults, and the driver with it. For a table whose pages are distinct, live and hold no
  more records than slots no call faults, and what the sink receives is the content of
  the table's slots up to the first \<open>nullptr\<close> slot, or all of it when no slot is
  \<open>nullptr\<close>: an unwritten slot ends the drive as the end of the table does.
  \<open>executeSelect\<close> then destroys its operator without fault.
\<close>

theorem drivers_forward_until_first_null:
  "(\<exists>n rs h1 s1. Next_calls n h t s = Inr (map Some rs, h1, s1) \<and>
      ((\<exists>h2 s2. Next h1 t s1 = Inr (None, h2, s2)
                \<and> executeSelect_loop out h t s = Inr (out @ rs, h2, s2))
       \<or> (\<exists>e. Next h1 t s1 = Inl e \<and> executeSelect_loop out h t s = Inl e)))
   \<and> (\<exists>n rs h1 s1. Next_rec_calls n h t s = Inr (map Some rs, h1, s1) \<and>
      ((\<exists>h2 s2. Next_rec h1 t s1 = Inr (None, h2, s2)
                \<and> execute out h t s = Inr (out @ rs, h2, s2))
       \<or> (\<exists>e. Next_rec h1 t s1 = Inl e \<and> execute out h t s = Inl e)))
   \<and> (wf_table h t \<longrightarrow>
        (\<exists>h2 s2. executeSelect_loop [] h t (TableScanOperator_ctor t)
                    = Inr (forwarded (table_slots h t), h2, s2)
                 \<and> (\<exists>h3. TableScanOperator_dtor h2 s2 = Inr h3))
      \<and> (\<exists>h2 s2. execute [] h t (TableScanOperator_ctor t)
                    = Inr (forwarded (table_slots h t), h2, s2))
      \<and> (getTable st tableName = Some t \<and> heap st = h \<longrightarrow>
            (\<exists>h3. executeSelect tableName st
                    = Inr (Inr (forwarded (table_slots h t)), st\<lparr>heap := h3\<rparr>))))"
proof (intro conjI impI)
  show "\<exists>n rs h1 s1. Next_calls n h t s = Inr (map Some rs, h1, s1) \<and>
      ((\<exists>h2 s2. Next h1 t s1 = Inr (None, h2, s2)
                \<and> executeSelect_loop out h t s = Inr (out @ rs, h2, s2))
       \<or> (\<exists>e. Next h1 t s1 = Inl e \<and> executeSelect_loop out h t s = Inl e))"
    by (rule executeSelect_loop_forwards)
  show "\<exists>n rs h1 s1. Next_rec_calls n h t s = Inr (map Some rs, h1, s1) \<and>
      ((\<exists>h2 s2. Next_rec h1 t s1 = Inr (None, h2, s2)
                \<and> execute out h t s = Inr (out @ rs, h2, s2))
       \<or> (\<exists>e. Next_rec h1 t s1 = Inl e \<and> execute out h t s = Inl e))"
    by (rule execute_forwards)
next
  assume w: "wf_table h t"
  note fresh = fresh_scan_inv[OF w]
  from executeSelect_loop_spec[OF fresh(1), of "[]"] fresh(2)
  obtain h2 s2 where a: "executeSelect_loop [] h t (TableScanOperator_ctor t)
              = Inr (forwarded (table_slots h t), h2, s2)"
    and fin: "scan_inv h2 t s2 \<or> currentPage s2 = None" by auto
  from a dtor_after_scan[OF fin]
  show "\<exists>h2 s2. executeSelect_loop [] h t (TableScanOperator_ctor t)
                    = Inr (forwarded (table_slots h t), h2, s2)
                 \<and> (\<exists>h3. TableScanOperator_dtor h2 s2 = Inr h3)" by blast
  from execute_spec[OF fresh(1), of "[]"] fresh(2)
  show "\<exists>h2 s2. execute [] h t (TableScanOperator_ctor t)
                    = Inr (forwarded (table_slots h t), h2, s2)" by auto
  assume "getTable st tableName = Some t \<and> heap st = h"
  with a dtor_after_scan[OF fin]
  show "\<exists>h3. executeSelect tableName st
                    = Inr (Inr (forwarded (table_slots h t)), st\<lparr>heap := h3\<rparr>)"
    by (auto simp: executeSelect_def)
qed

text \<open>
  The driver stops at the unwritten slot of the second page and never reaches \<open>C\<close>.
\<close>

theorem drivers_forward_until_first_null_witness:
  "getTable two_pages ''X'' = Some \<lparr>name = ''X'', pages = [0, 1], numRecordsPerPage = 2\<rparr>
   \<and> wf_table (heap two_pages) \<lparr>name = ''X'', pages = [0, 1], numRecordsPerPage = 2\<rparr>
   \<and> table_slots (heap two_pages) \<lparr>name = ''X'', pages = [0, 1], numRecordsPerPage = 2\<rparr>
       = [Some ''A'', Some ''B'', None, Some ''C'']
   \<and> (\<exists>h3. executeSelect ''X'' two_pages = Inr (Inr [''A'', ''B''], two_pages\<lparr>heap := h3\<rparr>))
   \<and> (\<exists>h2 s2. execute [] (heap two_pages) \<lparr>name = ''X'', pages = [0, 1], numRecordsPerPage = 2\<rparr>
              (TableScanOperator_ctor \<lparr>name = ''X'', pages = [0, 1], numRecordsPerPage = 2\<rparr>)
            = Inr ([''A'', ''B''], h2, s2))"
proof -
  let ?t = "\<lparr>name = ''X'', pages = [0, 1], numRecordsPerPage = 2\<rparr>"
  have g: "getTable two_pages ''X'' = Some ?t"
    by (simp add: getTable_def two_pages_def)
  have w: "wf_table (heap two_pages) ?t"
    by (simp add: wf_table_def wf_page_def two_pages_def INT_MAX_def)
  have sl: "table_slots (heap two_pages) ?t = [Some ''A'', Some ''B'', None, Some ''C'']"
    by (simp add: table_slots_def page_slots_def slots_def two_pages_def)
  have f: "forwarded [Some ''A'', Some ''B'', None, Some ''C''] = [''A'', ''B'']"
    by (simp add: forwarded_def)
  from drivers_forward_until_first_null
         [of "heap two_pages" ?t "TableScanOperator_ctor ?t" "[]" two_pages "''X''"]
  show ?thesis
    unfolding sl f using g w sl by blast
qed

text \<open>
  C10. A table of capacity one whose one page \<open>addPage\<close> made, bound in the catalog
  (\<open>addPage\<close> returns the grown table next to the state; \<open>one_page\<close> is that state
  with the table back under its name). The first \<open>executeSelect\<close> reads the unwritten
  slot, hands nothing to the sink and returns; its operator's destructor deletes the
  page, which the table still lists. The second \<open>executeSelect\<close> constructs its
  operator on that page and dereferences it in the first \<open>Next\<close>: the drive ends in
  undefined behaviour instead of forwarding the values of \<open>Next\<close> and returning.
  \<open>execute\<close> of tempCodeRunnerFile.cpp does the same once the first operator has been
  destroyed.
\<close>

theorem second_drive_reads_a_deleted_page:
  "addPage \<lparr>name = ''T'', pages = [], numRecordsPerPage = 1\<rparr>
       (snd (createTable ''T'' 1 initial_State))
     = Inr (\<lparr>name = ''T'', pages = [0], numRecordsPerPage = 1\<rparr>,
            one_page\<lparr>tables := [''T'' \<mapsto> \<lparr>name = ''T'', pages = [], numRecordsPerPage = 1\<rparr>]\<rparr>)
   \<and> getTable one_page ''T'' = Some \<lparr>name = ''T'', pages = [0], numRecordsPerPage = 1\<rparr>
   \<and> executeSelect ''T'' one_page = Inr (Inr [], one_page\<lparr>heap := Map.empty\<rparr>)
   \<and> executeSelect ''T'' (one_page\<lparr>heap := Map.empty\<rparr>) = Inl UseAfterFree
   \<and> execute [] (heap one_page) \<lparr>name = ''T'', pages = [0], numRecordsPerPage = 1\<rparr>
        (TableScanOperator_ctor \<lparr>name = ''T'', pages = [0], numRecordsPerPage = 1\<rparr>)
     = Inr ([], heap one_page,
            \<lparr>currentRecordIndex = 1, currentPageNum = 0, currentPage = Some 0\<rparr>)
   \<and> TableScanOperator_dtor (heap one_page)
        \<lparr>currentRecordIndex = 1, currentPageNum = 0, currentPage = Some 0\<rparr>
     = Inr Map.empty
   \<and> execute [] Map.empty \<lparr>name = ''T'', pages = [0], numRecordsPerPage = 1\<rparr>
        (TableScanOperator_ctor \<lparr>name = ''T'', pages = [0], numRecordsPerPage = 1\<rparr>)
     = Inl UseAfterFree"
  by (simp add: addPage_def Page_ctor_def createTable_def initial_State_def one_page_def
      getTable_def executeSelect_def executeSelect_loop.simps execute.simps
      Next.simps Next_rec.simps TableScanOperator_ctor_def TableScanOperator_dtor_def
      getPage_def read_record_def delete_Page_def INT_MAX_def)

end
